theory Spec2Isabelle
  imports Main "HOL-Library.AList"
begin

section \<open>The weighted consistent-hashing ring of consistentHashing.ts\<close>

text \<open>
  The class \<open>AdvancedConsistentHashing\<close> has five private fields. The two JavaScript
  \<open>Map\<close>s are association lists in insertion order with unique keys (\<open>Map.set\<close> is
  \<open>AList.update\<close>, \<open>Map.delete\<close> is \<open>AList.delete\<close>, \<open>Map.get\<close> is \<open>map_of\<close>,
  \<open>Map.size\<close> is the length). Hash values are natural numbers (the hash functions of the
  file return \<open>parseInt\<close> of eight hexadecimal digits), the replica count and the
  weights are integers. A call of \<open>addNode\<close> without a weight is a call with weight 1.
\<close>

record ring_state =
  ring :: "(nat \<times> string) list"
  sortedKeys :: "nat list"
  numberOfReplicas :: int
  weights :: "(string \<times> int) list"
  hashFunction :: "string \<Rightarrow> nat"

text \<open>The constructor: empty ring, empty key list, empty weight table.\<close>

definition init :: "int \<Rightarrow> (string \<Rightarrow> nat) \<Rightarrow> ring_state" where
  "init replicas hashFn =
     \<lparr>ring = [], sortedKeys = [], numberOfReplicas = replicas, weights = [],
      hashFunction = hashFn\<rparr>"

subsection \<open>Replica keys\<close>

text \<open>
  The template literal \<open>`${node}:${i}`\<close> renders the loop counter in decimal, without
  leading zeros.
\<close>

definition digitChar :: "nat \<Rightarrow> char" where
  "digitChar d = ''0123456789'' ! d"

fun decimal :: "nat \<Rightarrow> string" where
  "decimal n = (if n < 10 then [digitChar n] else decimal (n div 10) @ [digitChar (n mod 10)])"

declare decimal.simps [simp del]

definition replicaKey :: "string \<Rightarrow> nat \<Rightarrow> string" where
  "replicaKey node i = node @ '':'' @ decimal i"

subsection \<open>addNode\<close>

text \<open>
  One iteration of the loop body of \<open>addNode\<close>: bind the replica's hash to the node and
  push the hash on the key list.
\<close>

definition addNode_step :: "string \<Rightarrow> nat \<Rightarrow> ring_state \<Rightarrow> ring_state" where
  "addNode_step node i s =
     (let replicaKey = replicaKey node i;
          hashValue = hashFunction s replicaKey
      in s\<lparr>ring := AList.update hashValue node (ring s),
            sortedKeys := sortedKeys s @ [hashValue]\<rparr>)"

text \<open>
  The loop \<open>for (i = 0; i < numberOfReplicas * weight; i++)\<close> runs for
  \<open>i = 0, ..., numberOfReplicas * weight - 1\<close>, and not at all when the bound is not
  positive; the key list is sorted ascending afterwards.
\<close>

definition addNode :: "ring_state \<Rightarrow> string \<Rightarrow> int \<Rightarrow> ring_state" where
  "addNode s node weight =
     (let s1 = s\<lparr>weights := AList.update node weight (weights s)\<rparr>;
          s2 = fold (addNode_step node) [0 ..< nat (numberOfReplicas s1 * weight)] s1
      in s2\<lparr>sortedKeys := sort (sortedKeys s2)\<rparr>)"

subsection \<open>removeNode\<close>

definition removeNode_step :: "string \<Rightarrow> nat \<Rightarrow> ring_state \<Rightarrow> ring_state" where
  "removeNode_step node i s =
     (let replicaKey = replicaKey node i;
          hashValue = hashFunction s replicaKey
      in s\<lparr>ring := AList.delete hashValue (ring s),
            sortedKeys := filter (\<lambda>key. key \<noteq> hashValue) (sortedKeys s)\<rparr>)"

text \<open>
  \<open>this.weights.get(node) || 1\<close>: an absent node and a recorded weight of 0 both give 1.
\<close>

definition weightOrOne :: "int option \<Rightarrow> int" where
  "weightOrOne r = (case r of None \<Rightarrow> 1 | Some w \<Rightarrow> if w = 0 then 1 else w)"

definition removeNode :: "ring_state \<Rightarrow> string \<Rightarrow> ring_state" where
  "removeNode s node =
     (let weight = weightOrOne (map_of (weights s) node);
          s1 = fold (removeNode_step node) [0 ..< nat (numberOfReplicas s * weight)] s
      in s1\<lparr>weights := AList.delete node (weights s1)\<rparr>)"

subsection \<open>Lookups\<close>

text \<open>\<open>Array.prototype.findIndex\<close>: the first index whose element passes, or \<open>-1\<close>.\<close>

fun findIndex :: "('a \<Rightarrow> bool) \<Rightarrow> 'a list \<Rightarrow> int" where
  "findIndex P [] = - 1"
| "findIndex P (x # xs) =
     (if P x then 0
      else (let r = findIndex P xs in if r = - 1 then - 1 else r + 1))"

text \<open>
  \<open>this.ring.get(this.sortedKeys[index])\<close>: an index outside the array reads
  \<open>undefined\<close>, which is no key of the map, so the lookup is \<open>undefined\<close> as well.
\<close>

definition nodeAt :: "ring_state \<Rightarrow> int \<Rightarrow> string option" where
  "nodeAt s index =
     (if 0 \<le> index \<and> index < int (length (sortedKeys s))
      then map_of (ring s) (sortedKeys s ! nat index)
      else None)"

text \<open>The start index shared by both lookups: \<open>findIndex(k => k >= hashValue)\<close>, 0 for \<open>-1\<close>.\<close>

definition startIndex :: "ring_state \<Rightarrow> string \<Rightarrow> int" where
  "startIndex s key =
     (let hashValue = hashFunction s key;
          index = findIndex (\<lambda>k. k \<ge> hashValue) (sortedKeys s)
      in if index = - 1 then 0 else index)"

definition getNode :: "ring_state \<Rightarrow> string \<Rightarrow> string option" where
  "getNode s key =
     (if length (ring s) = 0 then None
      else nodeAt s (startIndex s key))"

text \<open>
  The \<open>while\<close> loop of \<open>getNodes\<close>. Nothing bounds the number of its iterations, so it is
  a partial function: \<open>None\<close> is a run that never leaves the loop. The test
  \<open>node && !result.includes(node)\<close> rejects \<open>undefined\<close> and the empty string.
\<close>

definition collect :: "string option \<Rightarrow> string list \<Rightarrow> string list" where
  "collect node result =
     (case node of
        None \<Rightarrow> result
      | Some n \<Rightarrow> if n \<noteq> [] \<and> n \<notin> set result then result @ [n] else result)"

partial_function (option) getNodes_loop ::
  "ring_state \<Rightarrow> int \<Rightarrow> int \<Rightarrow> string list \<Rightarrow> string list option" where
  "getNodes_loop s count index result =
     (if int (length result) < count \<and> length result < length (sortedKeys s)
      then getNodes_loop s count ((index + 1) mod int (length (sortedKeys s)))
             (collect (nodeAt s index) result)
      else Some result)"

definition getNodes :: "ring_state \<Rightarrow> string \<Rightarrow> int \<Rightarrow> string list option" where
  "getNodes s key count =
     (if length (sortedKeys s) = 0 \<or> count \<le> 0 then Some []
      else getNodes_loop s count (startIndex s key) [])"

subsection \<open>Reachable states\<close>

text \<open>The hash positions of the replica keys \<open>node:0\<close>, ..., \<open>node:(k-1)\<close>.\<close>

definition replicaHashes :: "ring_state \<Rightarrow> string \<Rightarrow> nat \<Rightarrow> nat list" where
  "replicaHashes s node k = map (\<lambda>i. hashFunction s (replicaKey node i)) [0 ..< k]"

text \<open>The states a caller can produce: the constructor, then any calls of the two mutators.\<close>

inductive reachable :: "ring_state \<Rightarrow> bool" where
  reach_init: "reachable (init replicas hashFn)"
| reach_add: "reachable s \<Longrightarrow> reachable (addNode s node weight)"
| reach_remove: "reachable s \<Longrightarrow> reachable (removeNode s node)"

text \<open>
  The states a caller produces when \<open>addNode\<close> is only called for a node that the weight
  table does not hold (the caller removes a node before adding it again).
\<close>

inductive fresh_reachable :: "ring_state \<Rightarrow> bool" where
  fresh_init: "fresh_reachable (init replicas hashFn)"
| fresh_add:
    "fresh_reachable s \<Longrightarrow> map_of (weights s) node = None \<Longrightarrow>
       fresh_reachable (addNode s node weight)"
| fresh_remove: "fresh_reachable s \<Longrightarrow> fresh_reachable (removeNode s node)"

text \<open>
  The states of \<open>fresh_reachable\<close> that are produced without a collision of replica
  positions: the hashes of the replica keys of an added node are pairwise distinct and not
  yet keys of the ring map, and no position that \<open>removeNode\<close> deletes is bound to another
  node. (\<open>replicaHashes\<close> lists the hashes of the first replica keys of a node.)
\<close>

inductive clean_reachable :: "ring_state \<Rightarrow> bool" where
  clean_init: "clean_reachable (init replicas hashFn)"
| clean_add:
    "clean_reachable s \<Longrightarrow> map_of (weights s) node = None \<Longrightarrow>
     distinct (replicaHashes s node (nat (numberOfReplicas s * weight))) \<Longrightarrow>
     set (replicaHashes s node (nat (numberOfReplicas s * weight))) \<inter> fst ` set (ring s) = {} \<Longrightarrow>
       clean_reachable (addNode s node weight)"
| clean_remove:
    "clean_reachable s \<Longrightarrow>
     \<forall>p \<in> set (replicaHashes s node
                (nat (numberOfReplicas s * weightOrOne (map_of (weights s) node)))).
        \<forall>m. map_of (ring s) p = Some m \<longrightarrow> m = node \<Longrightarrow>
       clean_reachable (removeNode s node)"

subsection \<open>Notions used in the statements\<close>


text \<open>The positions of the ring map that are bound to a node.\<close>

definition boundPositions :: "ring_state \<Rightarrow> string \<Rightarrow> nat list" where
  "boundPositions s node = map fst (filter (\<lambda>e. snd e = node) (ring s))"

text \<open>
  The key list is ascending and holds exactly the keys of the ring map, whose keys are
  unique.
\<close>

definition ring_inv :: "ring_state \<Rightarrow> bool" where
  "ring_inv s \<longleftrightarrow>
     sorted (sortedKeys s) \<and> set (sortedKeys s) = fst ` set (ring s) \<and>
     distinct (map fst (ring s))"

subsection \<open>Hash functions and the ring of the example\<close>

text \<open>
  The two hash functions of the file call the platform's \<open>crypto\<close> module. The example
  runs below use stand-ins for the injected function: \<open>strCode\<close> reads a string as a
  number in base 257, \<open>sumHash\<close> adds the character codes and collides on permuted
  strings.
\<close>

fun strCode :: "string \<Rightarrow> nat" where
  "strCode [] = 0"
| "strCode (c # cs) = Suc (of_char c) + 257 * strCode cs"

definition sumHash :: "string \<Rightarrow> nat" where
  "sumHash key = sum_list (map of_char key) mod 2 ^ 32"

text \<open>A third stand-in with 32-bit values: the polynomial hash with multiplier 31.\<close>

definition hash32 :: "string \<Rightarrow> nat" where
  "hash32 key = foldl (\<lambda>h c. (h * 31 + of_char c) mod 2 ^ 32) 0 key"

text \<open>
  The ring \<open>ch\<close> of the example usage: three replicas, \<open>NodeA\<close> with weight 2, \<open>NodeB\<close>
  with weight 1, \<open>NodeC\<close> with weight 3.
\<close>

definition ch :: "(string \<Rightarrow> nat) \<Rightarrow> ring_state" where
  "ch hashFn =
     addNode (addNode (addNode (init 3 hashFn) ''NodeA'' 2) ''NodeB'' 1) ''NodeC'' 3"

subsection \<open>Invariants of the proofs\<close>

text \<open>
  Every binding of the ring map belongs to a node of the weight table and sits at the hash
  of one of the replica keys that the recorded weight gives.
\<close>

definition owner_inv :: "ring_state \<Rightarrow> bool" where
  "owner_inv s \<longleftrightarrow>
     (\<forall>p m. map_of (ring s) p = Some m \<longrightarrow>
        (\<exists>w. map_of (weights s) m = Some w \<and>
             p \<in> set (replicaHashes s m (nat (numberOfReplicas s * w)))))"

text \<open>
  The replica keys that the recorded weight of a node gives have pairwise distinct hashes,
  each bound to that node in the ring map.
\<close>

definition replica_inv :: "ring_state \<Rightarrow> bool" where
  "replica_inv s \<longleftrightarrow>
     (\<forall>n w. map_of (weights s) n = Some w \<longrightarrow>
        distinct (replicaHashes s n (nat (numberOfReplicas s * w))) \<and>
        (\<forall>p \<in> set (replicaHashes s n (nat (numberOfReplicas s * w))).
           map_of (ring s) p = Some n))"

text \<open>What the loop keeps true of the list it builds.\<close>

definition collected :: "ring_state \<Rightarrow> int \<Rightarrow> string list \<Rightarrow> bool" where
  "collected s count result \<longleftrightarrow>
     distinct result \<and> set result \<subseteq> snd ` set (ring s) \<and> int (length result) \<le> max 0 count"

text \<open>
  The state after \<open>addNode('X', 2)\<close>, \<open>addNode('X', 1)\<close> and \<open>removeNode('X')\<close> on a ring
  with one replica and the hash function \<open>strCode\<close>.
\<close>

definition readded :: ring_state where
  "readded = removeNode (addNode (addNode (init 1 strCode) ''X'' 2) ''X'' 1) ''X''"

section \<open>The mutators, field by field\<close>

lemma addNode_step_fold:
  "hashFunction (fold (addNode_step n) js s) = hashFunction s"
  "numberOfReplicas (fold (addNode_step n) js s) = numberOfReplicas s"
  "weights (fold (addNode_step n) js s) = weights s"
  "sortedKeys (fold (addNode_step n) js s) =
     sortedKeys s @ map (\<lambda>i. hashFunction s (replicaKey n i)) js"
  "ring (fold (addNode_step n) js s) =
     fold (\<lambda>p. AList.update p n) (map (\<lambda>i. hashFunction s (replicaKey n i)) js) (ring s)"
  by (induction js arbitrary: s; simp add: addNode_step_def Let_def)+

lemma removeNode_step_fold:
  "hashFunction (fold (removeNode_step n) js s) = hashFunction s"
  "numberOfReplicas (fold (removeNode_step n) js s) = numberOfReplicas s"
  "weights (fold (removeNode_step n) js s) = weights s"
  "sortedKeys (fold (removeNode_step n) js s) =
     filter (\<lambda>k. k \<notin> (\<lambda>i. hashFunction s (replicaKey n i)) ` set js) (sortedKeys s)"
  "ring (fold (removeNode_step n) js s) =
     filter (\<lambda>e. fst e \<notin> (\<lambda>i. hashFunction s (replicaKey n i)) ` set js) (ring s)"
  by (induction js arbitrary: s;
      auto simp add: removeNode_step_def Let_def AList.delete_eq case_prod_beta intro: filter_cong)+

lemma addNode_fields:
  "hashFunction (addNode s n w) = hashFunction s"
  "numberOfReplicas (addNode s n w) = numberOfReplicas s"
  "weights (addNode s n w) = AList.update n w (weights s)"
  "sortedKeys (addNode s n w) =
     sort (sortedKeys s @ replicaHashes s n (nat (numberOfReplicas s * w)))"
  "ring (addNode s n w) =
     fold (\<lambda>p. AList.update p n) (replicaHashes s n (nat (numberOfReplicas s * w))) (ring s)"
  by (simp_all add: addNode_def Let_def addNode_step_fold replicaHashes_def)

lemma removeNode_fields:
  "hashFunction (removeNode s n) = hashFunction s"
  "numberOfReplicas (removeNode s n) = numberOfReplicas s"
  "weights (removeNode s n) = AList.delete n (weights s)"
  "sortedKeys (removeNode s n) =
     filter (\<lambda>k. k \<notin> set (replicaHashes s n
        (nat (numberOfReplicas s * weightOrOne (map_of (weights s) n))))) (sortedKeys s)"
  "ring (removeNode s n) =
     filter (\<lambda>e. fst e \<notin> set (replicaHashes s n
        (nat (numberOfReplicas s * weightOrOne (map_of (weights s) n))))) (ring s)"
  by (simp_all add: removeNode_def Let_def removeNode_step_fold replicaHashes_def)

text \<open>Rules that evaluate the mutators and the lookups on concrete rings.\<close>

lemma decimal_digit: "n < 10 \<Longrightarrow> decimal n = [digitChar n]"
  by (simp add: decimal.simps)

lemmas field_eval =
  addNode_fields removeNode_fields replicaHashes_def init_def ch_def
  replicaKey_def decimal_digit digitChar_def weightOrOne_def upt_rec

lemmas lookup_eval =
  getNode_def getNodes_def startIndex_def nodeAt_def collect_def getNodes_loop.simps

lemma map_of_fold_update:
  "map_of (fold (\<lambda>p. AList.update p n) ps al) q = (if q \<in> set ps then Some n else map_of al q)"
  by (induction ps arbitrary: al) (auto simp: update_conv')

lemma keys_fold_update:
  "fst ` set (fold (\<lambda>p. AList.update p n) ps al) = set ps \<union> fst ` set al"
  by (induction ps arbitrary: al) (auto simp: dom_update)

lemma distinct_fold_update:
  "distinct (map fst al) \<Longrightarrow> distinct (map fst (fold (\<lambda>p. AList.update p n) ps al))"
  by (induction ps arbitrary: al) (auto simp: distinct_update)

lemma map_of_filter_keys:
  "map_of (filter (\<lambda>e. fst e \<notin> K) al) q = (if q \<in> K then None else map_of al q)"
  by (induction al) auto

lemma ring_inv_init: "ring_inv (init r h)"
  by (simp add: ring_inv_def init_def)

lemma ring_inv_addNode: "ring_inv s \<Longrightarrow> ring_inv (addNode s n w)"
  by (auto simp: ring_inv_def addNode_fields keys_fold_update distinct_fold_update)

lemma ring_inv_removeNode: "ring_inv s \<Longrightarrow> ring_inv (removeNode s n)"
  by (auto simp: ring_inv_def removeNode_fields sorted_wrt_filter distinct_map_filter)

lemma reachable_ring_inv: "reachable s \<Longrightarrow> ring_inv s"
  by (induction rule: reachable.induct)
     (simp_all add: ring_inv_init ring_inv_addNode ring_inv_removeNode)

section \<open>getNode\<close>

lemma findIndex_range: "- 1 \<le> findIndex P xs \<and> findIndex P xs < int (length xs)"
  by (induction xs) (auto simp: Let_def)

lemma findIndex_none: "findIndex P xs = - 1 \<longleftrightarrow> (\<forall>x \<in> set xs. \<not> P x)"
proof (induction xs)
  case Nil
  then show ?case by simp
next
  case (Cons x xs)
  then show ?case
    using findIndex_range [of P xs] by (auto simp: Let_def)
qed

lemma findIndex_first:
  "findIndex P xs \<noteq> - 1 \<Longrightarrow>
     P (xs ! nat (findIndex P xs)) \<and> (\<forall>j < nat (findIndex P xs). \<not> P (xs ! j))"
proof (induction xs)
  case Nil
  then show ?case by simp
next
  case (Cons x xs)
  show ?case
  proof (cases "P x")
    case True
    then show ?thesis by simp
  next
    case False
    with Cons.prems have ne: "findIndex P xs \<noteq> - 1"
      by (auto simp: Let_def split: if_splits)
    have ge: "0 \<le> findIndex P xs"
      using findIndex_range [of P xs] ne by linarith
    have idx: "nat (findIndex P xs + 1) = Suc (nat (findIndex P xs))"
      using ge by linarith
    from Cons.IH [OF ne] False ne show ?thesis
      by (auto simp: Let_def idx less_Suc_eq_0_disj)
  qed
qed

lemma startIndex_range:
  "sortedKeys s \<noteq> [] \<Longrightarrow> 0 \<le> startIndex s key \<and> startIndex s key < int (length (sortedKeys s))"
  using findIndex_range [of "\<lambda>k. hashFunction s key \<le> k" "sortedKeys s"]
  by (auto simp: startIndex_def Let_def)

text \<open>The position at which both lookups start, in a state whose key list is sorted.\<close>

lemma start_position:
  assumes srt: "sorted (sortedKeys s)" and ne: "sortedKeys s \<noteq> []"
  shows "sortedKeys s ! nat (startIndex s key) =
           (if \<exists>q \<in> set (sortedKeys s). hashFunction s key \<le> q
            then Min {q \<in> set (sortedKeys s). hashFunction s key \<le> q}
            else Min (set (sortedKeys s)))"
proof (cases "\<exists>q \<in> set (sortedKeys s). hashFunction s key \<le> q")
  case True
  let ?P = "\<lambda>k. hashFunction s key \<le> k"
  let ?i = "findIndex ?P (sortedKeys s)"
  from True have found: "?i \<noteq> - 1" by (simp add: findIndex_none)
  then have si: "startIndex s key = ?i" by (simp add: startIndex_def Let_def)
  have lt: "nat ?i < length (sortedKeys s)"
    using findIndex_range [of ?P "sortedKeys s"] found by linarith
  from findIndex_first [OF found]
  have here: "?P (sortedKeys s ! nat ?i)"
    and before: "\<forall>j < nat ?i. \<not> ?P (sortedKeys s ! j)" by blast+
  have "Min {q \<in> set (sortedKeys s). ?P q} = sortedKeys s ! nat ?i"
  proof (rule Min_eqI)
    show "finite {q \<in> set (sortedKeys s). ?P q}" by simp
  next
    fix y assume "y \<in> {q \<in> set (sortedKeys s). ?P q}"
    then obtain j where j: "j < length (sortedKeys s)" "y = sortedKeys s ! j" "?P y"
      by (auto simp: in_set_conv_nth)
    with before have "nat ?i \<le> j" by (meson not_le_imp_less)
    with srt j show "sortedKeys s ! nat ?i \<le> y"
      by (simp add: sorted_nth_mono)
  next
    show "sortedKeys s ! nat ?i \<in> {q \<in> set (sortedKeys s). ?P q}"
      using here lt by simp
  qed
  with True si show ?thesis by simp
next
  case False
  then have "findIndex (\<lambda>k. hashFunction s key \<le> k) (sortedKeys s) = - 1"
    by (simp add: findIndex_none)
  then have si: "startIndex s key = 0" by (simp add: startIndex_def Let_def)
  have "Min (set (sortedKeys s)) = sortedKeys s ! 0"
  proof (rule Min_eqI)
    show "finite (set (sortedKeys s))" by simp
  next
    fix y assume "y \<in> set (sortedKeys s)"
    then obtain j where "j < length (sortedKeys s)" "y = sortedKeys s ! j"
      by (auto simp: in_set_conv_nth)
    with srt show "sortedKeys s ! 0 \<le> y" by (simp add: sorted_nth_mono)
  next
    show "sortedKeys s ! 0 \<in> set (sortedKeys s)" using ne by simp
  qed
  with False si show ?thesis by simp
qed

lemma ring_inv_nonempty: "ring_inv s \<Longrightarrow> ring s \<noteq> [] \<Longrightarrow> sortedKeys s \<noteq> []"
  by (auto simp: ring_inv_def)

lemma getNode_nodeAt: "ring s \<noteq> [] \<Longrightarrow> getNode s key = nodeAt s (startIndex s key)"
  by (simp add: getNode_def)

lemma nodeAt_start:
  "sortedKeys s \<noteq> [] \<Longrightarrow>
     nodeAt s (startIndex s key) = map_of (ring s) (sortedKeys s ! nat (startIndex s key))"
  using startIndex_range [of s key] by (simp add: nodeAt_def)

lemma nodeAt_bound:
  assumes "ring_inv s" "0 \<le> i" "i < int (length (sortedKeys s))"
  shows "\<exists>node. nodeAt s i = Some node"
proof -
  have "sortedKeys s ! nat i \<in> set (sortedKeys s)" using assms by simp
  moreover have "set (sortedKeys s) = fst ` set (ring s)"
    using assms(1) by (simp add: ring_inv_def)
  ultimately have "sortedKeys s ! nat i \<in> fst ` set (ring s)" by blast
  then have "map_of (ring s) (sortedKeys s ! nat i) \<noteq> None"
    by (simp add: map_of_eq_None_iff)
  then show ?thesis using assms by (auto simp: nodeAt_def)
qed

text \<open>
  C1: in a reachable state that stores at least one position, \<open>getNode\<close> returns the node
  bound to the least stored position that is at least the hash of the key, and the node
  bound to the least stored position of all when no stored position is that large.
\<close>

theorem getNode_successor:
  assumes "reachable s" and "ring s \<noteq> []"
  shows "\<exists>node. getNode s key = Some node \<and>
           map_of (ring s)
             (if \<exists>q \<in> fst ` set (ring s). hashFunction s key \<le> q
              then Min {q \<in> fst ` set (ring s). hashFunction s key \<le> q}
              else Min (fst ` set (ring s))) = Some node"
proof -
  have inv: "ring_inv s" using assms(1) by (rule reachable_ring_inv)
  then have ne: "sortedKeys s \<noteq> []" using assms(2) by (rule ring_inv_nonempty)
  have keys: "set (sortedKeys s) = fst ` set (ring s)" and srt: "sorted (sortedKeys s)"
    using inv by (simp_all add: ring_inv_def)
  obtain node where node: "nodeAt s (startIndex s key) = Some node"
    using nodeAt_bound [OF inv] startIndex_range [OF ne] by blast
  have "getNode s key = Some node"
    using node assms(2) by (simp add: getNode_nodeAt)
  moreover have "map_of (ring s) (sortedKeys s ! nat (startIndex s key)) = Some node"
    using node nodeAt_start [OF ne] by simp
  ultimately show ?thesis
    using start_position [OF srt ne, of key] unfolding keys [symmetric] by simp
qed

theorem getNode_successor_witness:
  "reachable (ch strCode) \<and> ring (ch strCode) \<noteq> [] \<and>
   (\<exists>node. getNode (ch strCode) ''myKey1'' = Some node \<and>
      map_of (ring (ch strCode))
        (if \<exists>q \<in> fst ` set (ring (ch strCode)). hashFunction (ch strCode) ''myKey1'' \<le> q
         then Min {q \<in> fst ` set (ring (ch strCode)). hashFunction (ch strCode) ''myKey1'' \<le> q}
         else Min (fst ` set (ring (ch strCode)))) = Some node)"
proof -
  have r: "reachable (ch strCode)"
    unfolding ch_def by (intro reachable.intros)
  have ne: "ring (ch strCode) \<noteq> []"
    by (simp add: field_eval)
  from getNode_successor [OF r ne, of "''myKey1''"] r ne show ?thesis by blast
qed

section \<open>The key list and the ring map\<close>

text \<open>
  C10: the key list and the ring map hold the same hash values. This is so after the
  constructor, both mutators keep it, so it holds in every reachable state, where the
  ring map is empty exactly when the key list is.
\<close>
theorem keys_correspondence:
  "set (sortedKeys (init replicas hashFn)) = fst ` set (ring (init replicas hashFn)) \<and>
   (set (sortedKeys s) = fst ` set (ring s) \<longrightarrow>
      set (sortedKeys (addNode s node weight)) = fst ` set (ring (addNode s node weight)) \<and>
      set (sortedKeys (removeNode s node)) = fst ` set (ring (removeNode s node))) \<and>
   (reachable s \<longrightarrow>
      set (sortedKeys s) = fst ` set (ring s) \<and> (ring s = [] \<longleftrightarrow> sortedKeys s = []))"
proof (intro conjI impI)
  show "set (sortedKeys (init replicas hashFn)) = fst ` set (ring (init replicas hashFn))"
    by (simp add: init_def)
next
  assume "set (sortedKeys s) = fst ` set (ring s)"
  then show "set (sortedKeys (addNode s node weight)) = fst ` set (ring (addNode s node weight))"
    by (simp add: addNode_fields keys_fold_update Un_commute)
next
  assume "set (sortedKeys s) = fst ` set (ring s)"
  then show "set (sortedKeys (removeNode s node)) = fst ` set (ring (removeNode s node))"
    by (auto simp: removeNode_fields)
next
  assume "reachable s"
  then have "ring_inv s" by (rule reachable_ring_inv)
  then show "set (sortedKeys s) = fst ` set (ring s)" by (simp add: ring_inv_def)
next
  assume "reachable s"
  then have "ring_inv s" by (rule reachable_ring_inv)
  then have "set (sortedKeys s) = fst ` set (ring s)" by (simp add: ring_inv_def)
  then show "ring s = [] \<longleftrightarrow> sortedKeys s = []"
    by (metis image_is_empty set_empty)
qed

theorem keys_correspondence_witness:
  "reachable (ch strCode) \<and>
   set (sortedKeys (ch strCode)) = fst ` set (ring (ch strCode)) \<and>
   set (sortedKeys (addNode (ch strCode) ''NodeD'' 1)) =
     fst ` set (ring (addNode (ch strCode) ''NodeD'' 1)) \<and>
   set (sortedKeys (removeNode (ch strCode) ''NodeB'')) =
     fst ` set (ring (removeNode (ch strCode) ''NodeB'')) \<and>
   (ring (ch strCode) = [] \<longleftrightarrow> sortedKeys (ch strCode) = [])"
proof -
  have r: "reachable (ch strCode)"
    unfolding ch_def by (intro reachable.intros)
  from keys_correspondence [of 3 strCode "ch strCode" "''NodeD''" 1] r
  have k: "set (sortedKeys (ch strCode)) = fst ` set (ring (ch strCode))"
    and e: "ring (ch strCode) = [] \<longleftrightarrow> sortedKeys (ch strCode) = []"
    by blast+
  from keys_correspondence [of 3 strCode "ch strCode" "''NodeD''" 1] k
  have a: "set (sortedKeys (addNode (ch strCode) ''NodeD'' 1)) =
     fst ` set (ring (addNode (ch strCode) ''NodeD'' 1))" by blast
  from keys_correspondence [of 3 strCode "ch strCode" "''NodeB''" 1] k
  have b: "set (sortedKeys (removeNode (ch strCode) ''NodeB'')) =
     fst ` set (ring (removeNode (ch strCode) ''NodeB''))" by blast
  from r k a b e show ?thesis by blast
qed

section \<open>The loop of getNodes\<close>

lemma nodeAt_value: "nodeAt s i = Some n \<Longrightarrow> n \<in> snd ` set (ring s)"
  by (auto simp: nodeAt_def split: if_splits dest!: map_of_SomeD intro: rev_image_eqI)

lemma collect_cases:
  "collect node result = result \<or>
   (\<exists>n. node = Some n \<and> n \<noteq> [] \<and> n \<notin> set result \<and> collect node result = result @ [n])"
  by (auto simp: collect_def split: option.splits)

lemma collected_step:
  assumes "collected s count result" "int (length result) < count"
  shows "collected s count (collect (nodeAt s index) result)"
  using assms collect_cases [of "nodeAt s index" result] nodeAt_value [of s index]
  by (auto simp: collected_def)

lemma getNodes_loop_collected:
  assumes run: "getNodes_loop s count index result = Some y"
  shows "collected s count result \<longrightarrow> collected s count y"
proof (rule getNodes_loop.raw_induct
    [where P = "\<lambda>s count index result y. collected s count result \<longrightarrow> collected s count y",
     OF _ run])
  fix loop s count index result y
  assume IH: "\<And>s count index result y. loop s count index result = Some y \<Longrightarrow>
                collected s count result \<longrightarrow> collected s count y"
    and body: "(if int (length result) < count \<and> length result < length (sortedKeys s)
                then loop s count ((index + 1) mod int (length (sortedKeys s)))
                       (collect (nodeAt s index) result)
                else Some result) = Some y"
  show "collected s count result \<longrightarrow> collected s count y"
  proof
    assume c: "collected s count result"
    show "collected s count y"
    proof (cases "int (length result) < count \<and> length result < length (sortedKeys s)")
      case True
      with body have "loop s count ((index + 1) mod int (length (sortedKeys s)))
                        (collect (nodeAt s index) result) = Some y" by simp
      moreover have "collected s count (collect (nodeAt s index) result)"
        using collected_step [OF c] True by blast
      ultimately show ?thesis using IH by blast
    next
      case False
      with body have "y = result" by (simp split: if_splits)
      with c show ?thesis by simp
    qed
  qed
qed

lemma getNodes_collected: "getNodes s key count = Some xs \<Longrightarrow> collected s count xs"
proof -
  assume g: "getNodes s key count = Some xs"
  have c0: "collected s count []" by (simp add: collected_def)
  show ?thesis
  proof (cases "length (sortedKeys s) = 0 \<or> count \<le> 0")
    case True
    with g have "xs = []" by (auto simp: getNodes_def)
    with c0 show ?thesis by simp
  next
    case False
    with g have "getNodes_loop s count (startIndex s key) [] = Some xs"
      by (simp add: getNodes_def)
    then show ?thesis using c0 getNodes_loop_collected by blast
  qed
qed

text \<open>
  A run that holds fewer distinct nodes than both the requested count and the number of
  positions never leaves the loop.
\<close>

lemma getNodes_loop_never:
  assumes run: "getNodes_loop s count index result = Some y"
  shows "collected s count result \<longrightarrow>
     \<not> (int (card (snd ` set (ring s))) < count \<and>
        card (snd ` set (ring s)) < length (sortedKeys s))"
proof (rule getNodes_loop.raw_induct
    [where P = "\<lambda>s count index result y. collected s count result \<longrightarrow>
       \<not> (int (card (snd ` set (ring s))) < count \<and>
          card (snd ` set (ring s)) < length (sortedKeys s))",
     OF _ run])
  fix loop s count index result y
  assume IH: "\<And>s count index result y. loop s count index result = Some y \<Longrightarrow>
                collected s count result \<longrightarrow>
                \<not> (int (card (snd ` set (ring s))) < count \<and>
                   card (snd ` set (ring s)) < length (sortedKeys s))"
    and body: "(if int (length result) < count \<and> length result < length (sortedKeys s)
                then loop s count ((index + 1) mod int (length (sortedKeys s)))
                       (collect (nodeAt s index) result)
                else Some result) = Some y"
  show "collected s count result \<longrightarrow>
     \<not> (int (card (snd ` set (ring s))) < count \<and>
        card (snd ` set (ring s)) < length (sortedKeys s))"
  proof (intro impI notI)
    assume c: "collected s count result"
      and few: "int (card (snd ` set (ring s))) < count \<and>
        card (snd ` set (ring s)) < length (sortedKeys s)"
    have "card (set result) \<le> card (snd ` set (ring s))"
      using c by (intro card_mono) (auto simp: collected_def)
    moreover have "card (set result) = length result"
      using c by (simp add: collected_def distinct_card)
    ultimately have le: "length result \<le> card (snd ` set (ring s))" by simp
    with few have guard: "int (length result) < count \<and> length result < length (sortedKeys s)"
      by linarith
    with body have "loop s count ((index + 1) mod int (length (sortedKeys s)))
                      (collect (nodeAt s index) result) = Some y" by simp
    moreover have "collected s count (collect (nodeAt s index) result)"
      using collected_step [OF c] guard by blast
    ultimately show False using IH few by blast
  qed
qed

lemma getNodes_never_returns:
  assumes "sortedKeys s \<noteq> []"
    and "int (card (snd ` set (ring s))) < count"
    and "card (snd ` set (ring s)) < length (sortedKeys s)"
  shows "getNodes s key count = None"
proof -
  have pos: "0 < count" using assms(2) by linarith
  have c0: "collected s count []" by (simp add: collected_def)
  have "getNodes s key count = getNodes_loop s count (startIndex s key) []"
    using assms(1) pos by (simp add: getNodes_def)
  moreover have "getNodes_loop s count (startIndex s key) [] \<noteq> Some y" for y
    using getNodes_loop_never c0 assms(2,3) by blast
  ultimately show ?thesis by (cases "getNodes s key count") auto
qed

text \<open>
  C3: \<open>getNodes\<close> is claimed to stop after one revolution even when the ring holds fewer
  distinct nodes than \<open>count\<close>. On a ring with two replicas and the single node \<open>A\<close>, a
  request for two nodes never returns, whatever the hash function and the key.
\<close>
theorem getNodes_single_node_diverges:
  "getNodes (addNode (init 2 hashFn) ''A'' 1) key 2 = None"
proof (rule getNodes_never_returns)
  let ?s = "addNode (init 2 hashFn) ''A'' 1"
  have vals: "snd ` set (ring ?s) = {''A''}"
    by (simp add: field_eval)
  show "sortedKeys ?s \<noteq> []" by (simp add: field_eval)
  show "int (card (snd ` set (ring ?s))) < 2" by (simp add: vals)
  have "length (sortedKeys ?s) = 2" by (simp add: field_eval)
  then show "card (snd ` set (ring ?s)) < length (sortedKeys ?s)" by (simp add: vals)
qed

section \<open>When getNodes returns\<close>




section \<open>Nodes of the ring map and nodes of the weight table\<close>

lemma map_of_ring_addNode:
  "map_of (ring (addNode s n w)) p =
     (if p \<in> set (replicaHashes s n (nat (numberOfReplicas s * w))) then Some n
      else map_of (ring s) p)"
  by (simp add: addNode_fields map_of_fold_update)

lemma map_of_ring_removeNode:
  "map_of (ring (removeNode s n)) p =
     (if p \<in> set (replicaHashes s n
                 (nat (numberOfReplicas s * weightOrOne (map_of (weights s) n))))
      then None else map_of (ring s) p)"
  by (simp add: removeNode_fields map_of_filter_keys)

lemma owner_inv_init: "owner_inv (init r h)"
  by (simp add: owner_inv_def init_def)

lemma owner_inv_addNode:
  assumes inv: "owner_inv s" and fresh: "map_of (weights s) n = None"
  shows "owner_inv (addNode s n w)"
  unfolding owner_inv_def
proof (intro allI impI)
  fix p m
  assume bound: "map_of (ring (addNode s n w)) p = Some m"
  let ?H = "replicaHashes s n (nat (numberOfReplicas s * w))"
  have rh: "replicaHashes (addNode s n w) x k = replicaHashes s x k" for x k
    by (simp add: replicaHashes_def addNode_fields)
  show "\<exists>w'. map_of (weights (addNode s n w)) m = Some w' \<and>
          p \<in> set (replicaHashes (addNode s n w) m (nat (numberOfReplicas (addNode s n w) * w')))"
  proof (cases "p \<in> set ?H")
    case True
    with bound have "m = n" by (simp add: map_of_ring_addNode)
    with True show ?thesis by (simp add: rh addNode_fields update_conv')
  next
    case False
    with bound have old: "map_of (ring s) p = Some m" by (simp add: map_of_ring_addNode)
    with inv obtain w' where w': "map_of (weights s) m = Some w'"
      "p \<in> set (replicaHashes s m (nat (numberOfReplicas s * w')))"
      unfolding owner_inv_def by blast
    with fresh have "m \<noteq> n" by auto
    with w' show ?thesis by (simp add: rh addNode_fields update_conv')
  qed
qed

lemma owner_inv_removeNode:
  assumes inv: "owner_inv s"
  shows "owner_inv (removeNode s n)"
  unfolding owner_inv_def
proof (intro allI impI)
  fix p m
  assume bound: "map_of (ring (removeNode s n)) p = Some m"
  let ?H = "replicaHashes s n (nat (numberOfReplicas s * weightOrOne (map_of (weights s) n)))"
  have rh: "replicaHashes (removeNode s n) x k = replicaHashes s x k" for x k
    by (simp add: replicaHashes_def removeNode_fields)
  from bound have notin: "p \<notin> set ?H" and old: "map_of (ring s) p = Some m"
    by (simp_all add: map_of_ring_removeNode split: if_splits)
  from old inv obtain w' where w': "map_of (weights s) m = Some w'"
    "p \<in> set (replicaHashes s m (nat (numberOfReplicas s * w')))"
    unfolding owner_inv_def by blast
  have "m \<noteq> n"
  proof
    assume "m = n"
    with w' have "w' \<noteq> 0" by (auto simp: replicaHashes_def)
    with w' \<open>m = n\<close> have "p \<in> set ?H" by (simp add: weightOrOne_def)
    with notin show False by contradiction
  qed
  with w' show "\<exists>w'. map_of (weights (removeNode s n)) m = Some w' \<and>
          p \<in> set (replicaHashes (removeNode s n) m
                 (nat (numberOfReplicas (removeNode s n) * w')))"
    by (simp add: rh removeNode_fields delete_conv')
qed

lemma fresh_reachable_owner_inv: "fresh_reachable s \<Longrightarrow> owner_inv s"
  by (induction rule: fresh_reachable.induct)
     (simp_all add: owner_inv_init owner_inv_addNode owner_inv_removeNode)

lemma fresh_reachable_reachable: "fresh_reachable s \<Longrightarrow> reachable s"
  by (induction rule: fresh_reachable.induct) (auto intro: reachable.intros)

lemma owner_inv_values:
  assumes inv: "owner_inv s" and keys: "distinct (map fst (ring s))"
  shows "snd ` set (ring s) \<subseteq> fst ` set (weights s)"
proof
  fix m assume "m \<in> snd ` set (ring s)"
  then obtain p where "(p, m) \<in> set (ring s)" by auto
  with keys have "map_of (ring s) p = Some m" by simp
  with inv obtain w where "map_of (weights s) m = Some w" unfolding owner_inv_def by blast
  then have "(m, w) \<in> set (weights s)" by (rule map_of_SomeD)
  then show "m \<in> fst ` set (weights s)" by (rule image_eqI [rotated]) simp
qed

section \<open>The example states\<close>

lemma ch_fields:
  "hashFunction (ch hashFn) = hashFn"
  "numberOfReplicas (ch hashFn) = 3"
  "weights (ch hashFn) = [(''NodeA'', 2), (''NodeB'', 1), (''NodeC'', 3)]"
  by (simp_all add: field_eval)

lemma ch_ring:
  "ring (ch strCode) =
     [(14185141368111928, ''NodeA''), (14473278175627577, ''NodeA''),
      (14761414983143226, ''NodeA''), (15049551790658875, ''NodeA''),
      (15337688598174524, ''NodeA''), (15625825405690173, ''NodeA''),
      (14185145730582329, ''NodeB''), (14473282538097978, ''NodeB''),
      (14761419345613627, ''NodeB''), (14185150093052730, ''NodeC''),
      (14473286900568379, ''NodeC''), (14761423708084028, ''NodeC''),
      (15049560515599677, ''NodeC''), (15337697323115326, ''NodeC''),
      (15625834130630975, ''NodeC''), (15913970938146624, ''NodeC''),
      (16202107745662273, ''NodeC''), (16490244553177922, ''NodeC'')]"
  by (simp add: field_eval)

lemma ch_sortedKeys:
  "sortedKeys (ch strCode) =
     [14185141368111928, 14185145730582329, 14185150093052730,
      14473278175627577, 14473282538097978, 14473286900568379,
      14761414983143226, 14761419345613627, 14761423708084028,
      15049551790658875, 15049560515599677, 15337688598174524,
      15337697323115326, 15625825405690173, 15625834130630975,
      15913970938146624, 16202107745662273, 16490244553177922]"
  by (simp add: field_eval)

lemma ch_fresh: "fresh_reachable (ch hashFn)"
  unfolding ch_def
  by (intro fresh_reachable.intros) (simp_all add: addNode_fields update_conv' init_def)

lemma ch_getNodes: "getNodes (ch strCode) ''myKey2'' 2 = Some [''NodeA'', ''NodeB'']"
  by (simp add: lookup_eval ch_ring ch_sortedKeys ch_fields)

lemma readded_fields:
  "ring readded = [(strCode ''X:1'', ''X'')]"
  "sortedKeys readded = [strCode ''X:1'']"
  "weights readded = []"
  "hashFunction readded = strCode"
  by (simp_all add: readded_def field_eval AList.delete_eq)

lemma readded_reachable: "reachable readded"
  unfolding readded_def by (intro reachable.intros)

lemma readded_getNode: "getNode readded ''k'' = Some ''X''"
  by (simp add: lookup_eval readded_fields)


lemma ch32_ring:
  "ring (ch hash32) =
     [(3779071445, ''NodeA''), (3779071446, ''NodeA''), (3779071447, ''NodeA''),
      (3779071448, ''NodeA''), (3779071449, ''NodeA''), (3779071450, ''NodeA''),
      (3779072406, ''NodeB''), (3779072407, ''NodeB''), (3779072408, ''NodeB''),
      (3779073367, ''NodeC''), (3779073368, ''NodeC''), (3779073369, ''NodeC''),
      (3779073370, ''NodeC''), (3779073371, ''NodeC''), (3779073372, ''NodeC''),
      (3779073373, ''NodeC''), (3779073374, ''NodeC''), (3779073375, ''NodeC'')]"
  by (simp add: field_eval hash32_def)




section \<open>Coverage\<close>

lemma getNode_bound:
  assumes inv: "ring_inv s" and ne: "ring s \<noteq> []"
  shows "\<exists>node. getNode s key = Some node \<and> node \<in> snd ` set (ring s)"
proof -
  have "sortedKeys s \<noteq> []" using inv ne by (rule ring_inv_nonempty)
  then obtain node where node: "nodeAt s (startIndex s key) = Some node"
    using nodeAt_bound [OF inv] startIndex_range by blast
  then have "node \<in> snd ` set (ring s)" by (rule nodeAt_value)
  with node ne show ?thesis by (simp add: getNode_nodeAt)
qed

text \<open>
  C2 (amended): in every reachable state with a non-empty ring map \<open>getNode\<close> returns a
  node and not the empty sentinel; when no node was added while it was in the weight
  table, the node returned is recorded in the weight table.
\<close>
theorem getNode_coverage:
  "(reachable s \<and> ring s \<noteq> [] \<longrightarrow> getNode s key \<noteq> None) \<and>
   (fresh_reachable s \<and> ring s \<noteq> [] \<longrightarrow>
      (\<exists>node. getNode s key = Some node \<and> node \<in> fst ` set (weights s)))"
proof (intro conjI impI)
  assume "reachable s \<and> ring s \<noteq> []"
  then have "ring_inv s" "ring s \<noteq> []" by (simp_all add: reachable_ring_inv)
  then show "getNode s key \<noteq> None" using getNode_bound by fastforce
next
  assume a: "fresh_reachable s \<and> ring s \<noteq> []"
  then have inv: "ring_inv s" by (simp add: reachable_ring_inv fresh_reachable_reachable)
  from a have "owner_inv s" by (simp add: fresh_reachable_owner_inv)
  then have sub: "snd ` set (ring s) \<subseteq> fst ` set (weights s)"
    using inv by (simp add: owner_inv_values ring_inv_def)
  from a inv obtain node where "getNode s key = Some node" "node \<in> snd ` set (ring s)"
    using getNode_bound by blast
  with sub show "\<exists>node. getNode s key = Some node \<and> node \<in> fst ` set (weights s)"
    by blast
qed

theorem getNode_coverage_witness:
  "reachable (ch strCode) \<and> fresh_reachable (ch strCode) \<and> ring (ch strCode) \<noteq> [] \<and>
   getNode (ch strCode) ''myKey1'' \<noteq> None \<and>
   (\<exists>node. getNode (ch strCode) ''myKey1'' = Some node \<and>
      node \<in> fst ` set (weights (ch strCode)))"
proof -
  have f: "fresh_reachable (ch strCode)" by (rule ch_fresh)
  then have r: "reachable (ch strCode)" by (rule fresh_reachable_reachable)
  have ne: "ring (ch strCode) \<noteq> []" by (simp add: ch_ring)
  from getNode_coverage [of "ch strCode" "''myKey1''"] f r ne show ?thesis by blast
qed

theorem getNode_absent_node_counterexample:
  "reachable readded \<and> ring readded \<noteq> [] \<and> getNode readded ''k'' = Some ''X'' \<and>
   ''X'' \<notin> fst ` set (weights readded)"
  by (simp add: readded_reachable readded_getNode readded_fields)

section \<open>Redundant lookups\<close>






section \<open>Removing a node that is not there\<close>

lemma removeNode_untouched:
  assumes absent: "node \<notin> fst ` set (weights s)"
    and ring: "set (replicaHashes s node
                 (nat (numberOfReplicas s * weightOrOne (map_of (weights s) node)))) \<inter>
               fst ` set (ring s) = {}"
    and keys: "set (replicaHashes s node
                 (nat (numberOfReplicas s * weightOrOne (map_of (weights s) node)))) \<inter>
               set (sortedKeys s) = {}"
  shows "removeNode s node = s"
proof (rule ring_state.equality)
  show "ring (removeNode s node) = ring s"
    using ring by (auto simp: removeNode_fields filter_id_conv)
  show "sortedKeys (removeNode s node) = sortedKeys s"
    using keys by (auto simp: removeNode_fields filter_id_conv)
  show "weights (removeNode s node) = weights s"
    using absent by (simp add: removeNode_fields)
qed (simp_all add: removeNode_fields)

text \<open>
  C8 (amended): when a node is absent from the weight table and none of the hashes of its
  replica keys \<open>node:0\<close>, ..., \<open>node:(replicas - 1)\<close> is a key of the ring map or an entry of
  the key list, \<open>removeNode\<close> leaves the whole state as it was: ring map, key list and
  weight table.
\<close>
theorem removeNode_absent:
  assumes "map_of (weights s) node = None"
    and "set (replicaHashes s node (nat (numberOfReplicas s))) \<inter>
           (fst ` set (ring s) \<union> set (sortedKeys s)) = {}"
  shows "removeNode s node = s"
proof (rule removeNode_untouched)
  show "node \<notin> fst ` set (weights s)"
    using assms(1) by (simp add: map_of_eq_None_iff)
  show "set (replicaHashes s node
               (nat (numberOfReplicas s * weightOrOne (map_of (weights s) node)))) \<inter>
        fst ` set (ring s) = {}"
    using assms by (auto simp: weightOrOne_def)
  show "set (replicaHashes s node
               (nat (numberOfReplicas s * weightOrOne (map_of (weights s) node)))) \<inter>
        set (sortedKeys s) = {}"
    using assms by (auto simp: weightOrOne_def)
qed



theorem removeNode_absent_witness:
  "map_of (weights (ch strCode)) ''NodeD'' = None \<and>
   set (replicaHashes (ch strCode) ''NodeD'' (nat (numberOfReplicas (ch strCode)))) \<inter>
     (fst ` set (ring (ch strCode)) \<union> set (sortedKeys (ch strCode))) = {} \<and>
   removeNode (ch strCode) ''NodeD'' = ch strCode"
proof -
  have a: "map_of (weights (ch strCode)) ''NodeD'' = None"
    by (simp add: ch_fields)
  have b: "set (replicaHashes (ch strCode) ''NodeD'' (nat (numberOfReplicas (ch strCode)))) \<inter>
     (fst ` set (ring (ch strCode)) \<union> set (sortedKeys (ch strCode))) = {}"
    by (simp add: ch_fields ch_ring ch_sortedKeys replicaHashes_def replicaKey_def
        decimal_digit digitChar_def upt_rec)
  from removeNode_absent [OF a b] a b show ?thesis by blast
qed



theorem removeNode_absent_counterexample:
  "map_of (weights (addNode (init 1 sumHash) ''ab'' 1)) ''ba'' = None \<and>
   ring (addNode (init 1 sumHash) ''ab'' 1) = [(301, ''ab'')] \<and>
   sortedKeys (addNode (init 1 sumHash) ''ab'' 1) = [301] \<and>
   ring (removeNode (addNode (init 1 sumHash) ''ab'' 1) ''ba'') = [] \<and>
   sortedKeys (removeNode (addNode (init 1 sumHash) ''ab'' 1) ''ba'') = []"
  by (simp add: field_eval sumHash_def update_conv')



section \<open>Adding a node again\<close>

text \<open>
  C7: \<open>addNode\<close> on a node that is already there pushes the hashes of the new replica keys
  on the key list next to the entries it holds and keeps every binding of the node in the
  ring map; with a positive replica count and a positive weight, adding a node twice gives
  a state other than adding it once.
\<close>
theorem addNode_again:
  "sortedKeys (addNode (addNode s node w) node w') =
     sort (sortedKeys (addNode s node w) @
           replicaHashes s node (nat (numberOfReplicas s * w'))) \<and>
   length (sortedKeys (addNode (addNode s node w) node w')) =
     length (sortedKeys (addNode s node w)) + nat (numberOfReplicas s * w') \<and>
   (map_of (ring (addNode s node w)) p = Some node \<longrightarrow>
      map_of (ring (addNode (addNode s node w) node w')) p = Some node) \<and>
   (0 < numberOfReplicas s * w \<longrightarrow>
      addNode (addNode s node w) node w \<noteq> addNode s node w)"
proof (intro conjI impI)
  show "sortedKeys (addNode (addNode s node w) node w') =
     sort (sortedKeys (addNode s node w) @
           replicaHashes s node (nat (numberOfReplicas s * w')))"
    by (simp add: addNode_fields replicaHashes_def)
next
  show "length (sortedKeys (addNode (addNode s node w) node w')) =
     length (sortedKeys (addNode s node w)) + nat (numberOfReplicas s * w')"
    by (simp add: addNode_fields replicaHashes_def)
next
  assume "map_of (ring (addNode s node w)) p = Some node"
  then show "map_of (ring (addNode (addNode s node w) node w')) p = Some node"
    by (simp add: map_of_ring_addNode)
next
  assume pos: "0 < numberOfReplicas s * w"
  have "length (sortedKeys (addNode (addNode s node w) node w)) =
        length (sortedKeys (addNode s node w)) + nat (numberOfReplicas s * w)"
    by (simp add: addNode_fields replicaHashes_def)
  with pos have "length (sortedKeys (addNode (addNode s node w) node w)) \<noteq>
        length (sortedKeys (addNode s node w))" by simp
  then show "addNode (addNode s node w) node w \<noteq> addNode s node w" by auto
qed

theorem addNode_again_witness:
  "map_of (ring (addNode (init 3 strCode) ''NodeA'' 2)) (strCode ''NodeA:0'') = Some ''NodeA'' \<and>
   map_of (ring (addNode (addNode (init 3 strCode) ''NodeA'' 2) ''NodeA'' 1)) (strCode ''NodeA:0'')
     = Some ''NodeA'' \<and>
   0 < numberOfReplicas (init 3 strCode) * 2 \<and>
   addNode (addNode (init 3 strCode) ''NodeA'' 2) ''NodeA'' 2 \<noteq>
     addNode (init 3 strCode) ''NodeA'' 2"
proof -
  have a: "map_of (ring (addNode (init 3 strCode) ''NodeA'' 2)) (strCode ''NodeA:0'')
             = Some ''NodeA''"
    by (simp add: field_eval update_conv')
  have b: "0 < numberOfReplicas (init 3 strCode) * 2" by (simp add: init_def)
  from addNode_again [of "init 3 strCode" "''NodeA''" 2 1 "strCode ''NodeA:0''"] a b
  show ?thesis by blast
qed



section \<open>Weights that are not positive\<close>

lemma nodeAt_cong:
  "ring (s' :: ring_state) = ring (s :: ring_state) \<Longrightarrow> sortedKeys s' = sortedKeys s \<Longrightarrow> nodeAt s' i = nodeAt s i"
  by (simp add: nodeAt_def)

lemma getNodes_loop_transfer:
  assumes run: "getNodes_loop s count index result = Some y"
  shows "\<forall>s'::ring_state. ring s' = ring s \<and> sortedKeys s' = sortedKeys s \<longrightarrow>
           getNodes_loop s' count index result = Some y"
proof (rule getNodes_loop.raw_induct
    [where P = "\<lambda>s count index result y.
       \<forall>s'::ring_state. ring s' = ring s \<and> sortedKeys s' = sortedKeys s \<longrightarrow>
            getNodes_loop s' count index result = Some y",
     OF _ run])
  fix loop s count index result y
  assume IH: "\<And>s count index result y. loop s count index result = Some y \<Longrightarrow>
                \<forall>s'::ring_state. ring s' = ring s \<and> sortedKeys s' = sortedKeys s \<longrightarrow>
                     getNodes_loop s' count index result = Some y"
    and body: "(if int (length result) < count \<and> length result < length (sortedKeys s)
                then loop s count ((index + 1) mod int (length (sortedKeys s)))
                       (collect (nodeAt s index) result)
                else Some result) = Some y"
  show "\<forall>s'::ring_state. ring s' = ring s \<and> sortedKeys s' = sortedKeys s \<longrightarrow>
             getNodes_loop s' count index result = Some y"
  proof (intro allI impI)
    fix s' :: ring_state assume same: "ring s' = ring s \<and> sortedKeys s' = sortedKeys s"
    then have na: "nodeAt s' index = nodeAt s index" by (simp add: nodeAt_def)
    show "getNodes_loop s' count index result = Some y"
    proof (cases "int (length result) < count \<and> length result < length (sortedKeys s)")
      case True
      with body have "loop s count ((index + 1) mod int (length (sortedKeys s)))
                        (collect (nodeAt s index) result) = Some y" by simp
      with IH same have "getNodes_loop s' count ((index + 1) mod int (length (sortedKeys s)))
                        (collect (nodeAt s index) result) = Some y" by blast
      with True same na show ?thesis
        by (subst getNodes_loop.simps) simp
    next
      case False
      with body have "y = result" by (simp split: if_splits)
      with False same show ?thesis
        by (subst getNodes_loop.simps) auto
    qed
  qed
qed

lemma getNodes_loop_cong:
  fixes s s' :: ring_state
  assumes "ring s' = ring s" "sortedKeys s' = sortedKeys s"
  shows "getNodes_loop s' count index result = getNodes_loop s count index result"
proof (cases "getNodes_loop s count index result")
  case (Some y)
  from getNodes_loop_transfer [OF Some] assms
  have "getNodes_loop s' count index result = Some y" by blast
  with Some show ?thesis by simp
next
  case None
  show ?thesis
  proof (cases "getNodes_loop s' count index result")
    case (Some y)
    from getNodes_loop_transfer [OF Some] assms
    have "getNodes_loop s count index result = Some y" by simp
    with None show ?thesis by simp
  next
    case None': None
    with None show ?thesis by simp
  qed
qed

lemma lookups_cong:
  fixes s s' :: ring_state
  assumes "ring s' = ring s" "sortedKeys s' = sortedKeys s" "hashFunction s' = hashFunction s"
  shows "getNode s' key = getNode s key" "getNodes s' key count = getNodes s key count"
proof -
  have si: "startIndex s' key = startIndex s key"
    by (simp add: startIndex_def assms)
  show "getNode s' key = getNode s key"
    by (simp add: getNode_def si assms(1) nodeAt_cong [OF assms(1,2)])
  show "getNodes s' key count = getNodes s key count"
    by (simp add: getNodes_def si assms(2) getNodes_loop_cong [OF assms(1,2)])
qed

text \<open>
  C9 (amended): on a ring whose replica count is not negative, \<open>addNode\<close> with a weight of 0 or less
  records the weight and returns normally, leaves the ring map and the key list as they
  were, and both lookups answer as before; a node without a binding in the ring map is
  returned by neither lookup, and a node that is new to the weight table of a state reached
  without adding present nodes has no binding.
\<close>
theorem addNode_nonpositive_weight:
  assumes "reachable s" and "0 \<le> numberOfReplicas s" and "weight \<le> 0"
  shows "map_of (weights (addNode s node weight)) node = Some weight \<and>
         ring (addNode s node weight) = ring s \<and>
         sortedKeys (addNode s node weight) = sortedKeys s \<and>
         getNode (addNode s node weight) key = getNode s key \<and>
         getNodes (addNode s node weight) key count = getNodes s key count \<and>
         (node \<notin> snd ` set (ring s) \<longrightarrow>
            getNode (addNode s node weight) key \<noteq> Some node \<and>
            (\<forall>xs. getNodes (addNode s node weight) key count = Some xs \<longrightarrow> node \<notin> set xs)) \<and>
         (fresh_reachable s \<and> map_of (weights s) node = None \<longrightarrow>
            node \<notin> snd ` set (ring s))"
proof -
  have "numberOfReplicas s * weight \<le> 0"
    using assms(2,3) by (simp add: mult_nonneg_nonpos)
  then have none: "nat (numberOfReplicas s * weight) = 0" by simp
  have srt: "sorted (sortedKeys s)"
    using assms(1) reachable_ring_inv by (auto simp: ring_inv_def)
  have r: "ring (addNode s node weight) = ring s"
    by (simp add: addNode_fields none replicaHashes_def)
  have k: "sortedKeys (addNode s node weight) = sortedKeys s"
    using srt by (simp add: addNode_fields none replicaHashes_def sorted_sort_id)
  have h: "hashFunction (addNode s node weight) = hashFunction s"
    by (simp add: addNode_fields)
  have w: "map_of (weights (addNode s node weight)) node = Some weight"
    by (simp add: addNode_fields update_conv')
  have g1: "getNode (addNode s node weight) key = getNode s key"
    by (rule lookups_cong [OF r k h])
  have g2: "getNodes (addNode s node weight) key count = getNodes s key count"
    by (rule lookups_cong [OF r k h])
  have inv: "ring_inv (addNode s node weight)"
    using assms(1) by (simp add: reachable_ring_inv ring_inv_addNode)
  have hidden: "getNode (addNode s node weight) key \<noteq> Some node \<and>
            (\<forall>xs. getNodes (addNode s node weight) key count = Some xs \<longrightarrow> node \<notin> set xs)"
    if off: "node \<notin> snd ` set (ring s)"
  proof (intro conjI allI impI)
    show "getNode (addNode s node weight) key \<noteq> Some node"
    proof
      assume "getNode (addNode s node weight) key = Some node"
      then have "nodeAt (addNode s node weight) (startIndex (addNode s node weight) key) = Some node"
        by (simp add: getNode_def split: if_splits)
      then have "node \<in> snd ` set (ring (addNode s node weight))" by (rule nodeAt_value)
      with off r show False by simp
    qed
  next
    fix xs assume "getNodes (addNode s node weight) key count = Some xs"
    then have "collected (addNode s node weight) count xs" by (rule getNodes_collected)
    with off r show "node \<notin> set xs" by (auto simp: collected_def)
  qed
  have unbound: "node \<notin> snd ` set (ring s)"
    if new: "fresh_reachable s \<and> map_of (weights s) node = None"
  proof -
    have "owner_inv s" using new by (simp add: fresh_reachable_owner_inv)
    moreover have "distinct (map fst (ring s))"
      using assms(1) reachable_ring_inv by (auto simp: ring_inv_def)
    ultimately have "snd ` set (ring s) \<subseteq> fst ` set (weights s)"
      by (rule owner_inv_values)
    moreover have "node \<notin> fst ` set (weights s)"
      using new by (simp add: map_of_eq_None_iff)
    ultimately show ?thesis by blast
  qed
  from w r k g1 g2 hidden unbound show ?thesis by blast
qed

theorem addNode_nonpositive_weight_witness:
  "reachable (ch hash32) \<and> 0 \<le> numberOfReplicas (ch hash32) \<and> (0::int) \<le> 0 \<and>
   map_of (weights (addNode (ch hash32) ''NodeD'' 0)) ''NodeD'' = Some 0 \<and>
   ring (addNode (ch hash32) ''NodeD'' 0) = ring (ch hash32) \<and>
   sortedKeys (addNode (ch hash32) ''NodeD'' 0) = sortedKeys (ch hash32) \<and>
   getNode (addNode (ch hash32) ''NodeD'' 0) ''myKey1'' = getNode (ch hash32) ''myKey1'' \<and>
   getNodes (addNode (ch hash32) ''NodeD'' 0) ''myKey1'' 2 = getNodes (ch hash32) ''myKey1'' 2 \<and>
   fresh_reachable (ch hash32) \<and> map_of (weights (ch hash32)) ''NodeD'' = None \<and>
   ''NodeD'' \<notin> snd ` set (ring (ch hash32)) \<and>
   getNode (addNode (ch hash32) ''NodeD'' 0) ''myKey1'' \<noteq> Some ''NodeD''"
proof -
  have f: "fresh_reachable (ch hash32)" by (rule ch_fresh)
  have a: "map_of (weights (ch hash32)) ''NodeD'' = None" by (simp add: ch_fields)
  have r: "reachable (ch hash32)" using ch_fresh by (rule fresh_reachable_reachable)
  have n: "0 \<le> numberOfReplicas (ch hash32)" by (simp add: ch_fields)
  have z: "(0::int) \<le> 0" by simp
  from addNode_nonpositive_weight [OF r n z, of "''NodeD''" "''myKey1''" 2] r n z f a
  show ?thesis by blast
qed

theorem addNode_nonpositive_weight_counterexample:
  "reachable (addNode (init 1 hash32) ''A'' 1) \<and>
   numberOfReplicas (addNode (init 1 hash32) ''A'' 1) = 1 \<and>
   map_of (weights (addNode (addNode (init 1 hash32) ''A'' 1) ''A'' 0)) ''A'' = Some 0 \<and>
   getNode (addNode (addNode (init 1 hash32) ''A'' 1) ''A'' 0) ''k'' = Some ''A'' \<and>
   getNodes (addNode (addNode (init 1 hash32) ''A'' 1) ''A'' 0) ''k'' 1 = Some [''A'']"
proof -
  have "reachable (addNode (init 1 hash32) ''A'' 1)" by (intro reachable.intros)
  then show ?thesis
    by (simp add: field_eval lookup_eval hash32_def)
qed

section \<open>Replica counts\<close>

lemma replicaHashes_addNode [simp]:
  "replicaHashes (addNode s n w) m k = replicaHashes s m k"
  by (simp add: replicaHashes_def addNode_fields)

lemma replicaHashes_removeNode [simp]:
  "replicaHashes (removeNode s n) m k = replicaHashes s m k"
  by (simp add: replicaHashes_def removeNode_fields)

lemma replicaHashes_length [simp]: "length (replicaHashes s n k) = k"
  by (simp add: replicaHashes_def)

lemma replicaHashes_mono: "k \<le> k' \<Longrightarrow> set (replicaHashes s n k) \<subseteq> set (replicaHashes s n k')"
  by (auto simp: replicaHashes_def)

lemma clean_reachable_fresh: "clean_reachable s \<Longrightarrow> fresh_reachable s"
  by (induction rule: clean_reachable.induct) (auto intro: fresh_reachable.intros)

lemma replica_inv_init: "replica_inv (init r h)"
  by (simp add: replica_inv_def init_def)

lemma replica_inv_addNode:
  assumes inv: "replica_inv s"
    and new: "distinct (replicaHashes s n (nat (numberOfReplicas s * w)))"
    and free: "set (replicaHashes s n (nat (numberOfReplicas s * w))) \<inter> fst ` set (ring s) = {}"
  shows "replica_inv (addNode s n w)"
  unfolding replica_inv_def
proof (intro allI impI)
  fix m w'
  assume rec: "map_of (weights (addNode s n w)) m = Some w'"
  show "distinct (replicaHashes (addNode s n w) m (nat (numberOfReplicas (addNode s n w) * w'))) \<and>
        (\<forall>p \<in> set (replicaHashes (addNode s n w) m
                    (nat (numberOfReplicas (addNode s n w) * w'))).
           map_of (ring (addNode s n w)) p = Some m)"
  proof (cases "m = n")
    case True
    with rec have "w' = w" by (simp add: addNode_fields update_conv')
    with True new show ?thesis by (simp add: map_of_ring_addNode addNode_fields(2))
  next
    case False
    with rec have old: "map_of (weights s) m = Some w'"
      by (simp add: addNode_fields update_conv')
    with inv have d: "distinct (replicaHashes s m (nat (numberOfReplicas s * w')))"
      and b: "\<forall>p \<in> set (replicaHashes s m (nat (numberOfReplicas s * w'))).
                map_of (ring s) p = Some m"
      unfolding replica_inv_def by blast+
    have "map_of (ring (addNode s n w)) p = Some m"
      if p: "p \<in> set (replicaHashes s m (nat (numberOfReplicas s * w')))" for p
    proof -
      from b p have bound: "map_of (ring s) p = Some m" by blast
      then have "map_of (ring s) p \<noteq> None" by simp
      then have "p \<in> fst ` set (ring s)" by (simp add: map_of_eq_None_iff)
      with free have "p \<notin> set (replicaHashes s n (nat (numberOfReplicas s * w)))" by blast
      with bound show ?thesis by (simp add: map_of_ring_addNode)
    qed
    with d show ?thesis by (simp add: addNode_fields(2))
  qed
qed

lemma replica_inv_removeNode:
  assumes inv: "replica_inv s"
    and own: "\<forall>p \<in> set (replicaHashes s n
                (nat (numberOfReplicas s * weightOrOne (map_of (weights s) n)))).
               \<forall>m. map_of (ring s) p = Some m \<longrightarrow> m = n"
  shows "replica_inv (removeNode s n)"
  unfolding replica_inv_def
proof (intro allI impI)
  fix m w'
  assume rec: "map_of (weights (removeNode s n)) m = Some w'"
  from rec have ne: "m \<noteq> n" and old: "map_of (weights s) m = Some w'"
    by (auto simp: removeNode_fields delete_conv' split: if_splits)
  with inv have d: "distinct (replicaHashes s m (nat (numberOfReplicas s * w')))"
    and b: "\<forall>p \<in> set (replicaHashes s m (nat (numberOfReplicas s * w'))).
              map_of (ring s) p = Some m"
    unfolding replica_inv_def by blast+
  have "map_of (ring (removeNode s n)) p = Some m"
    if p: "p \<in> set (replicaHashes s m (nat (numberOfReplicas s * w')))" for p
  proof -
    from b p have bound: "map_of (ring s) p = Some m" by blast
    with own ne have "p \<notin> set (replicaHashes s n
                       (nat (numberOfReplicas s * weightOrOne (map_of (weights s) n))))"
      by blast
    with bound show ?thesis by (simp add: map_of_ring_removeNode)
  qed
  with d show "distinct (replicaHashes (removeNode s n) m
                  (nat (numberOfReplicas (removeNode s n) * w'))) \<and>
        (\<forall>p \<in> set (replicaHashes (removeNode s n) m
                    (nat (numberOfReplicas (removeNode s n) * w'))).
           map_of (ring (removeNode s n)) p = Some m)"
    by (simp add: removeNode_fields(2))
qed

lemma clean_reachable_replica_inv: "clean_reachable s \<Longrightarrow> replica_inv s"
  by (induction rule: clean_reachable.induct)
     (simp_all add: replica_inv_init replica_inv_addNode replica_inv_removeNode)

lemma set_boundPositions:
  "distinct (map fst (ring s)) \<Longrightarrow>
     set (boundPositions s node) = {p. map_of (ring s) p = Some node}"
  by (force simp: boundPositions_def)

lemma distinct_boundPositions:
  "distinct (map fst (ring s)) \<Longrightarrow> distinct (boundPositions s node)"
  by (simp add: boundPositions_def distinct_map_filter)

lemma boundPositions_replicas:
  assumes c: "clean_reachable s" and rec: "map_of (weights s) node = Some w"
  shows "set (boundPositions s node) =
           set (replicaHashes s node (nat (numberOfReplicas s * w)))"
    and "length (boundPositions s node) = nat (numberOfReplicas s * w)"
proof -
  have f: "fresh_reachable s" using c by (rule clean_reachable_fresh)
  have keys: "distinct (map fst (ring s))"
    using f reachable_ring_inv fresh_reachable_reachable by (auto simp: ring_inv_def)
  have own: "owner_inv s" using f by (rule fresh_reachable_owner_inv)
  have rep: "replica_inv s" using c by (rule clean_reachable_replica_inv)
  show eq: "set (boundPositions s node) =
           set (replicaHashes s node (nat (numberOfReplicas s * w)))"
  proof (intro equalityI subsetI)
    fix p assume "p \<in> set (boundPositions s node)"
    then have "map_of (ring s) p = Some node" using keys by (simp add: set_boundPositions)
    with own rec show "p \<in> set (replicaHashes s node (nat (numberOfReplicas s * w)))"
      unfolding owner_inv_def by fastforce
  next
    fix p assume "p \<in> set (replicaHashes s node (nat (numberOfReplicas s * w)))"
    with rep rec have "map_of (ring s) p = Some node" unfolding replica_inv_def by blast
    then show "p \<in> set (boundPositions s node)" using keys by (simp add: set_boundPositions)
  qed
  have dis: "distinct (replicaHashes s node (nat (numberOfReplicas s * w)))"
    using rep rec unfolding replica_inv_def by blast
  have "length (boundPositions s node) = card (set (boundPositions s node))"
    using keys by (simp add: distinct_boundPositions distinct_card)
  also have "\<dots> = card (set (replicaHashes s node (nat (numberOfReplicas s * w))))"
    by (simp only: eq)
  also have "\<dots> = length (replicaHashes s node (nat (numberOfReplicas s * w)))"
    using dis by (rule distinct_card)
  finally show "length (boundPositions s node) = nat (numberOfReplicas s * w)" by simp
qed

lemma length_update_fresh:
  "k \<notin> fst ` set al \<Longrightarrow> length (AList.update k v al) = Suc (length al)"
  by (induction al) auto

lemma length_fold_update:
  "distinct ps \<Longrightarrow> set ps \<inter> fst ` set al = {} \<Longrightarrow>
     length (fold (\<lambda>p. AList.update p n) ps al) = length al + length ps"
proof (induction ps arbitrary: al)
  case Nil
  then show ?case by simp
next
  case (Cons p ps)
  from Cons.prems have fresh: "p \<notin> fst ` set al" by auto
  have "set ps \<inter> fst ` set (AList.update p n al) = {}"
    using Cons.prems by (auto simp: dom_update)
  with Cons.IH [of "AList.update p n al"] Cons.prems
  have "length (fold (\<lambda>p. AList.update p n) ps (AList.update p n al)) =
          length (AList.update p n al) + length ps" by simp
  with fresh show ?case by (simp add: length_update_fresh)
qed

lemma length_ring_addNode:
  assumes "distinct (replicaHashes s n (nat (numberOfReplicas s * w)))"
    and "set (replicaHashes s n (nat (numberOfReplicas s * w))) \<inter> fst ` set (ring s) = {}"
  shows "length (ring (addNode s n w)) = length (ring s) + nat (numberOfReplicas s * w)"
  using assms by (simp add: addNode_fields length_fold_update)

lemma keys_ring_addNode:
  "fst ` set (ring (addNode s n w)) =
     set (replicaHashes s n (nat (numberOfReplicas s * w))) \<union> fst ` set (ring s)"
  by (simp add: addNode_fields keys_fold_update)

text \<open>The example ring when its 18 replica keys have 18 different hashes.\<close>

lemma ch_clean_length:
  assumes dis: "distinct (replicaHashes (init 3 hashFn) ''NodeA'' 6 @
                          replicaHashes (init 3 hashFn) ''NodeB'' 3 @
                          replicaHashes (init 3 hashFn) ''NodeC'' 9)"
  shows "clean_reachable (ch hashFn)" and "length (ring (ch hashFn)) = 18"
proof -
  let ?s0 = "init 3 hashFn"
  let ?s1 = "addNode ?s0 ''NodeA'' 2"
  let ?s2 = "addNode ?s1 ''NodeB'' 1"
  let ?A = "replicaHashes ?s0 ''NodeA'' 6"
  let ?B = "replicaHashes ?s0 ''NodeB'' 3"
  let ?C = "replicaHashes ?s0 ''NodeC'' 9"
  from dis have dA: "distinct ?A" and dB: "distinct ?B" and dC: "distinct ?C"
    and AB: "set ?B \<inter> set ?A = {}" and CAB: "set ?C \<inter> (set ?B \<union> set ?A) = {}"
    by auto
  have n: "numberOfReplicas ?s0 = 3" "numberOfReplicas ?s1 = 3" "numberOfReplicas ?s2 = 3"
    by (simp_all add: addNode_fields init_def)
  have w: "map_of (weights ?s0) ''NodeA'' = None" "map_of (weights ?s1) ''NodeB'' = None"
    "map_of (weights ?s2) ''NodeC'' = None"
    by (simp_all add: addNode_fields update_conv' init_def)
  have k0: "fst ` set (ring ?s0) = {}" by (simp add: init_def)
  have k1: "fst ` set (ring ?s1) = set ?A" by (simp add: keys_ring_addNode k0 n)
  have k2: "fst ` set (ring ?s2) = set ?B \<union> set ?A" by (simp add: keys_ring_addNode k0 n)
  have c0: "clean_reachable ?s0" by (rule clean_init)
  have c1: "clean_reachable ?s1"
    by (rule clean_add [OF c0 w(1)]) (simp_all add: n dA k0)
  have c2: "clean_reachable ?s2"
    by (rule clean_add [OF c1 w(2)]) (simp_all add: n dB AB k1)
  have "clean_reachable (addNode ?s2 ''NodeC'' 3)"
    by (rule clean_add [OF c2 w(3)]) (simp_all add: n dC CAB k2)
  then show "clean_reachable (ch hashFn)" by (simp add: ch_def)
  have l1: "length (ring ?s1) = 6"
    using length_ring_addNode [of ?s0 "''NodeA''" 2] dA k0 by (simp add: n init_def)
  have l2: "length (ring ?s2) = 9"
    using length_ring_addNode [of ?s1 "''NodeB''" 1] dB AB l1 by (simp add: n k1)
  have "length (ring (addNode ?s2 ''NodeC'' 3)) = 18"
    using length_ring_addNode [of ?s2 "''NodeC''" 3] dC CAB l2 by (simp add: n k2)
  then show "length (ring (ch hashFn)) = 18" by (simp add: ch_def)
qed

lemma ch32_clean: "clean_reachable (ch hash32)"
  by (rule ch_clean_length) (simp add: field_eval hash32_def)

lemma ch32_removed_clean: "clean_reachable (removeNode (ch hash32) ''NodeB'')"
  by (rule clean_remove [OF ch32_clean])
     (simp add: ch_fields ch32_ring replicaHashes_def replicaKey_def decimal_digit
        digitChar_def weightOrOne_def upt_rec hash32_def)

text \<open>
  C4 (amended): in a state reached without adding a node while it is in the weight table
  and without a collision of replica positions (\<open>clean_reachable\<close>), the positions bound to
  a node of the weight table are the hashes of its first \<open>replicas * weight\<close> replica keys,
  and there are as many of them as that product (none when it is negative). The ring of
  the example, with three replicas and the weights 2, 1 and 3, is such a state and holds
  18 positions when its 18 replica keys have 18 different hashes.
\<close>
theorem replica_count:
  "(clean_reachable s \<and> map_of (weights s) node = Some w \<longrightarrow>
        set (boundPositions s node) =
          set (replicaHashes s node (nat (numberOfReplicas s * w))) \<and>
        length (boundPositions s node) = nat (numberOfReplicas s * w)) \<and>
   (distinct (replicaHashes (init 3 hashFn) ''NodeA'' 6 @
              replicaHashes (init 3 hashFn) ''NodeB'' 3 @
              replicaHashes (init 3 hashFn) ''NodeC'' 9) \<longrightarrow>
      clean_reachable (ch hashFn) \<and>
      length (ring (ch hashFn)) = 18 \<and> length (sortedKeys (ch hashFn)) = 18)"
proof (intro conjI impI)
  assume a: "clean_reachable s \<and> map_of (weights s) node = Some w"
  then show "set (boundPositions s node) =
          set (replicaHashes s node (nat (numberOfReplicas s * w)))"
    using boundPositions_replicas(1) by blast
  from a show "length (boundPositions s node) = nat (numberOfReplicas s * w)"
    using boundPositions_replicas(2) by blast
next
  assume "distinct (replicaHashes (init 3 hashFn) ''NodeA'' 6 @
              replicaHashes (init 3 hashFn) ''NodeB'' 3 @
              replicaHashes (init 3 hashFn) ''NodeC'' 9)"
  then show "clean_reachable (ch hashFn)" "length (ring (ch hashFn)) = 18"
    by (rule ch_clean_length)+
next
  show "length (sortedKeys (ch hashFn)) = 18"
    by (simp add: ch_def addNode_fields init_def)
qed

theorem replica_count_witness:
  "distinct (replicaHashes (init 3 hash32) ''NodeA'' 6 @
             replicaHashes (init 3 hash32) ''NodeB'' 3 @
             replicaHashes (init 3 hash32) ''NodeC'' 9) \<and>
   clean_reachable (ch hash32) \<and>
   map_of (weights (ch hash32)) ''NodeA'' = Some 2 \<and>
   length (boundPositions (ch hash32) ''NodeA'') = nat (numberOfReplicas (ch hash32) * 2) \<and>
   boundPositions (ch hash32) ''NodeA'' =
     [3779071445, 3779071446, 3779071447, 3779071448, 3779071449, 3779071450] \<and>
   length (ring (ch hash32)) = 18 \<and> length (sortedKeys (ch hash32)) = 18 \<and>
   clean_reachable (removeNode (ch hash32) ''NodeB'') \<and>
   map_of (weights (removeNode (ch hash32) ''NodeB'')) ''NodeC'' = Some 3 \<and>
   length (boundPositions (removeNode (ch hash32) ''NodeB'') ''NodeC'') =
     nat (numberOfReplicas (removeNode (ch hash32) ''NodeB'') * 3) \<and>
   length (ring (removeNode (ch hash32) ''NodeB'')) = 15"
proof -
  have d: "distinct (replicaHashes (init 3 hash32) ''NodeA'' 6 @
             replicaHashes (init 3 hash32) ''NodeB'' 3 @
             replicaHashes (init 3 hash32) ''NodeC'' 9)"
    by (simp add: field_eval hash32_def)
  from replica_count [of "ch hash32" "''NodeA''" 2 hash32] d
  have c: "clean_reachable (ch hash32)" and l: "length (ring (ch hash32)) = 18"
    "length (sortedKeys (ch hash32)) = 18" by blast+
  have w: "map_of (weights (ch hash32)) ''NodeA'' = Some 2" by (simp add: ch_fields)
  from replica_count [of "ch hash32" "''NodeA''" 2 hash32] c w
  have n: "length (boundPositions (ch hash32) ''NodeA'') = nat (numberOfReplicas (ch hash32) * 2)"
    by blast
  have b: "boundPositions (ch hash32) ''NodeA'' =
     [3779071445, 3779071446, 3779071447, 3779071448, 3779071449, 3779071450]"
    by (simp add: boundPositions_def ch32_ring)
  have c': "clean_reachable (removeNode (ch hash32) ''NodeB'')" by (rule ch32_removed_clean)
  have w': "map_of (weights (removeNode (ch hash32) ''NodeB'')) ''NodeC'' = Some 3"
    and l': "length (ring (removeNode (ch hash32) ''NodeB'')) = 15"
    by (simp_all add: removeNode_fields ch_fields ch32_ring AList.delete_eq replicaHashes_def
        replicaKey_def decimal_digit digitChar_def weightOrOne_def upt_rec hash32_def)
  from replica_count [of "removeNode (ch hash32) ''NodeB''" "''NodeC''" 3 hash32] c' w'
  have n': "length (boundPositions (removeNode (ch hash32) ''NodeB'') ''NodeC'') =
     nat (numberOfReplicas (removeNode (ch hash32) ''NodeB'') * 3)" by blast
  from d c w n b l c' w' n' l' show ?thesis by blast
qed

theorem replica_count_counterexample:
  "reachable (addNode (addNode (init 1 hash32) ''X'' 2) ''X'' 1) \<and>
   distinct (replicaHashes (init 1 hash32) ''X'' 2) \<and>
   numberOfReplicas (addNode (addNode (init 1 hash32) ''X'' 2) ''X'' 1) = 1 \<and>
   map_of (weights (addNode (addNode (init 1 hash32) ''X'' 2) ''X'' 1)) ''X'' = Some 1 \<and>
   length (boundPositions (addNode (addNode (init 1 hash32) ''X'' 2) ''X'' 1) ''X'') = 2"
proof -
  have "reachable (addNode (addNode (init 1 hash32) ''X'' 2) ''X'' 1)"
    by (intro reachable.intros)
  then show ?thesis
    by (simp add: field_eval hash32_def boundPositions_def)
qed

section \<open>Adding a node and removing it again\<close>

lemma filter_update_removed:
  "k \<in> K \<Longrightarrow> filter (\<lambda>e. fst e \<notin> K) (AList.update k v al) = filter (\<lambda>e. fst e \<notin> K) al"
  by (induction al) auto

lemma filter_fold_update_removed:
  "set ps \<subseteq> K \<Longrightarrow>
     filter (\<lambda>e. fst e \<notin> K) (fold (\<lambda>p. AList.update p n) ps al) =
     filter (\<lambda>e. fst e \<notin> K) al"
  by (induction ps arbitrary: al) (simp_all add: filter_update_removed)

lemma delete_update_fresh:
  "k \<notin> fst ` set al \<Longrightarrow> AList.delete k (AList.update k v al) = al"
  by (induction al) (auto simp: AList.delete_eq)

lemma add_remove_restore:
  assumes inv: "ring_inv s"
    and absent: "node \<notin> fst ` set (weights s)"
    and free: "set (replicaHashes s node (nat (numberOfReplicas s * weightOrOne (Some w)))) \<inter>
                 fst ` set (ring s) = {}"
  shows "removeNode (addNode s node w) node = s"
proof (rule ring_state.equality)
  let ?A = "replicaHashes s node (nat (numberOfReplicas s * w))"
  let ?R = "replicaHashes s node (nat (numberOfReplicas s * weightOrOne (Some w)))"
  have w1: "map_of (weights (addNode s node w)) node = Some w"
    by (simp add: addNode_fields update_conv')
  have "nat (numberOfReplicas s * w) \<le> nat (numberOfReplicas s * weightOrOne (Some w))"
    by (simp add: weightOrOne_def)
  then have sub: "set ?A \<subseteq> set ?R" by (rule replicaHashes_mono)
  have keys: "set (sortedKeys s) = fst ` set (ring s)" and srt: "sorted (sortedKeys s)"
    using inv by (simp_all add: ring_inv_def)
  have r1: "filter (\<lambda>e. fst e \<notin> set ?R) (ring s) = ring s"
    using free by (auto simp: filter_id_conv)
  have k1: "filter (\<lambda>k. k \<notin> set ?R) (sortedKeys s) = sortedKeys s"
    using free keys by (auto simp: filter_id_conv)
  have k2: "filter (\<lambda>k. k \<notin> set ?R) ?A = []"
    using sub by (auto simp: filter_empty_conv)
  have R: "replicaHashes (addNode s node w) node
             (nat (numberOfReplicas (addNode s node w) *
                   weightOrOne (map_of (weights (addNode s node w)) node))) = ?R"
    by (simp add: w1 addNode_fields(2))
  have "ring (removeNode (addNode s node w) node) =
          filter (\<lambda>e. fst e \<notin> set ?R) (ring (addNode s node w))"
    by (simp only: removeNode_fields(5) R)
  also have "\<dots> = filter (\<lambda>e. fst e \<notin> set ?R) (ring s)"
    by (simp only: addNode_fields(5) filter_fold_update_removed [OF sub])
  finally show "ring (removeNode (addNode s node w) node) = ring s"
    by (simp only: r1)
  have "sortedKeys (removeNode (addNode s node w) node) =
          filter (\<lambda>k. k \<notin> set ?R) (sortedKeys (addNode s node w))"
    by (simp only: removeNode_fields(4) R)
  also have "\<dots> = sort (filter (\<lambda>k. k \<notin> set ?R) (sortedKeys s) @
                         filter (\<lambda>k. k \<notin> set ?R) ?A)"
    by (simp only: addNode_fields(4) filter_sort filter_append)
  also have "\<dots> = sortedKeys s"
    by (simp add: k1 k2 srt sorted_sort_id)
  finally show "sortedKeys (removeNode (addNode s node w) node) = sortedKeys s" .
  show "weights (removeNode (addNode s node w) node) = weights s"
    using absent by (simp add: removeNode_fields(3) addNode_fields(3) delete_update_fresh)
qed (simp_all add: removeNode_fields addNode_fields)

text \<open>
  C5 (amended): in a reachable state where a node is not present (it has no entry in the
  weight table and no position of the ring map is bound to it) and none of the hashes of
  the replica keys that the two calls use is a position bound to another node, adding the
  node and removing it at once gives back the state before the two calls, so \<open>getNode\<close>
  and \<open>getNodes\<close> answer as they did.
\<close>
theorem add_then_remove:
  assumes "reachable s"
    and "map_of (weights s) node = None"
    and "node \<notin> snd ` set (ring s)"
    and "\<forall>p \<in> set (replicaHashes s node (nat (numberOfReplicas s * weightOrOne (Some w)))).
           \<forall>m. map_of (ring s) p = Some m \<longrightarrow> m = node"
  shows "removeNode (addNode s node w) node = s \<and>
         getNode (removeNode (addNode s node w) node) key = getNode s key \<and>
         getNodes (removeNode (addNode s node w) node) key count = getNodes s key count"
proof -
  have "ring_inv s" using assms(1) by (rule reachable_ring_inv)
  moreover have "node \<notin> fst ` set (weights s)"
    using assms(2) by (simp add: map_of_eq_None_iff)
  moreover have "set (replicaHashes s node (nat (numberOfReplicas s * weightOrOne (Some w)))) \<inter>
                 fst ` set (ring s) = {}"
  proof (rule ccontr)
    assume "set (replicaHashes s node (nat (numberOfReplicas s * weightOrOne (Some w)))) \<inter>
                 fst ` set (ring s) \<noteq> {}"
    then obtain p where p: "p \<in> set (replicaHashes s node
                                    (nat (numberOfReplicas s * weightOrOne (Some w))))"
      and "p \<in> fst ` set (ring s)" by blast
    then have "map_of (ring s) p \<noteq> None" by (simp add: map_of_eq_None_iff)
    then obtain m where m: "map_of (ring s) p = Some m" by blast
    with assms(4) p have "m = node" by blast
    moreover have "m \<in> snd ` set (ring s)"
    proof -
      from m have "(p, m) \<in> set (ring s)" by (rule map_of_SomeD)
      then show ?thesis by (rule image_eqI [rotated]) simp
    qed
    ultimately show False using assms(3) by blast
  qed
  ultimately have "removeNode (addNode s node w) node = s" by (rule add_remove_restore)
  then show ?thesis by simp
qed

theorem add_then_remove_witness:
  "reachable (ch hash32) \<and> map_of (weights (ch hash32)) ''NodeD'' = None \<and>
   ''NodeD'' \<notin> snd ` set (ring (ch hash32)) \<and>
   set (replicaHashes (ch hash32) ''NodeD''
          (nat (numberOfReplicas (ch hash32) * weightOrOne (Some 2)))) \<inter>
     fst ` set (ring (ch hash32)) = {} \<and>
   removeNode (addNode (ch hash32) ''NodeD'' 2) ''NodeD'' = ch hash32 \<and>
   getNode (removeNode (addNode (ch hash32) ''NodeD'' 2) ''NodeD'') ''myKey1'' =
     getNode (ch hash32) ''myKey1'' \<and>
   getNodes (removeNode (addNode (ch hash32) ''NodeD'' 2) ''NodeD'') ''myKey2'' 2 =
     getNodes (ch hash32) ''myKey2'' 2"
proof -
  have a: "reachable (ch hash32)" using ch_fresh by (rule fresh_reachable_reachable)
  have b: "map_of (weights (ch hash32)) ''NodeD'' = None" by (simp add: ch_fields)
  have c: "''NodeD'' \<notin> snd ` set (ring (ch hash32))" by (simp add: ch32_ring)
  have d: "\<forall>p \<in> set (replicaHashes (ch hash32) ''NodeD''
               (nat (numberOfReplicas (ch hash32) * weightOrOne (Some 2)))).
      \<forall>m. map_of (ring (ch hash32)) p = Some m \<longrightarrow> m = ''NodeD''"
    by (simp add: ch_fields ch32_ring replicaHashes_def replicaKey_def decimal_digit
        digitChar_def weightOrOne_def upt_rec hash32_def)
  have e: "set (replicaHashes (ch hash32) ''NodeD''
          (nat (numberOfReplicas (ch hash32) * weightOrOne (Some 2)))) \<inter>
     fst ` set (ring (ch hash32)) = {}"
    by (simp add: ch_fields ch32_ring replicaHashes_def replicaKey_def decimal_digit
        digitChar_def weightOrOne_def upt_rec hash32_def)
  from add_then_remove [OF a b c d, of "''myKey1''" 2]
       add_then_remove [OF a b c d, of "''myKey2''" 2] a b c e
  show ?thesis by blast
qed

theorem add_then_remove_counterexample:
  "reachable readded \<and> distinct (replicaHashes readded ''X'' 2) \<and>
   map_of (weights readded) ''X'' = None \<and>
   getNode readded ''k'' = Some ''X'' \<and>
   getNode (removeNode (addNode readded ''X'' 2) ''X'') ''k'' = None"
proof -
  have n: "numberOfReplicas readded = 1"
    by (simp add: readded_def field_eval)
  have "ring (removeNode (addNode readded ''X'' 2) ''X'') = []"
    by (simp add: field_eval readded_fields n update_conv')
  then have "getNode (removeNode (addNode readded ''X'' 2) ''X'') ''k'' = None"
    by (simp add: getNode_def)
  then show ?thesis
    by (simp add: readded_fields readded_reachable readded_getNode replicaHashes_def
        replicaKey_def decimal_digit digitChar_def upt_rec)
qed

end
